theory Spec2Isabelle
  imports Main
begin

section \<open>The tape: class \<open>Array\<close> of bf.py\<close>

text \<open>
  Cells are Python integers (\<open>int\<close>). The data pointer starts at 0, \<open>right\<close> adds one and
  \<open>left\<close> subtracts one only under the guard \<open>self.ptr > 0\<close>, so it is a natural number.
  The two \<open>logging.error\<close> calls are the only effect of the class outside its fields; the
  messages they emit are collected, in order, in the field \<open>logged\<close>.
\<close>

datatype log_event =
    Buffer_overflow nat   \<comment> \<open>\<open>logging.error("Buffer overflow at position %d", self.ptr)\<close>\<close>
  | Buffer_underflow nat  \<comment> \<open>\<open>logging.error("Buffer underflow at position %d", self.ptr)\<close>\<close>

datatype error =
    IndexError          \<comment> \<open>\<open>temp_stack.popleft()\<close> on an empty deque\<close>
  | KeyError nat        \<comment> \<open>\<open>brace_map[position]\<close> with no such key\<close>
  | SegmentationFault   \<comment> \<open>\<open>raise ValueError("Segmentation Fault")\<close> in \<open>Array.left\<close>\<close>
  | ChrOutOfRange       \<comment> \<open>\<open>chr(n)\<close> with \<open>n\<close> outside \<open>range(0x110000)\<close>\<close>
  | OrdOfEmpty          \<comment> \<open>\<open>ord('')\<close>: \<open>getch\<close> returned the empty string at end of input\<close>

record Array =
  array :: "int list"
  ptr :: nat
  logged :: "log_event list"

text \<open>\<open>Array.__init__\<close>: 30000 zero cells, pointer 0.\<close>

definition Array_init :: Array where
  "Array_init = \<lparr>array = replicate 30000 0, ptr = 0, logged = []\<rparr>"

text \<open>
  The same constructor with the number of cells as a parameter, for statements about a
  tape of any initial length; \<open>Array_init\<close> is \<open>zero_tape 30000\<close>.
\<close>

definition zero_tape :: "nat \<Rightarrow> Array" where
  "zero_tape L = \<lparr>array = replicate L 0, ptr = 0, logged = []\<rparr>"

text \<open>
  \<open>self.array[self.ptr]\<close> raises in Python when the pointer is not an index of the list.
  That never happens: \<open>ptr_valid\<close> holds of \<open>Array_init\<close> and every method keeps it
  (lemmas \<open>ptr_valid_*\<close> below), so the reads and writes are modelled with \<open>!\<close> and
  list update.
\<close>

definition ptr_valid :: "Array \<Rightarrow> bool" where
  "ptr_valid s = (ptr s < length (array s))"

definition get_data :: "Array \<Rightarrow> int" where
  "get_data s = array s ! ptr s"

definition set_data :: "Array \<Rightarrow> int \<Rightarrow> Array" where
  "set_data s n = s\<lparr>array := (array s)[ptr s := n]\<rparr>"

definition increment :: "Array \<Rightarrow> Array" where
  "increment s =
     (let a1 = (array s)[ptr s := array s ! ptr s + 1] in
      if a1 ! ptr s > 256
      then s\<lparr>array := a1[ptr s := a1 ! ptr s mod 256],
              logged := logged s @ [Buffer_overflow (ptr s)]\<rparr>
      else s\<lparr>array := a1\<rparr>)"

definition decrement :: "Array \<Rightarrow> Array" where
  "decrement s =
     (let a1 = (array s)[ptr s := array s ! ptr s - 1] in
      if a1 ! ptr s < 0
      then s\<lparr>array := a1[ptr s := a1 ! ptr s mod 256],
              logged := logged s @ [Buffer_underflow (ptr s)]\<rparr>
      else s\<lparr>array := a1\<rparr>)"

definition right :: "Array \<Rightarrow> Array" where
  "right s =
     (let p = ptr s + 1 in
      if p \<ge> length (array s)
      then s\<lparr>array := array s @ [0], ptr := p\<rparr>
      else s\<lparr>ptr := p\<rparr>)"

definition left :: "Array \<Rightarrow> error + Array" where
  "left s = (if ptr s > 0 then Inr (s\<lparr>ptr := ptr s - 1\<rparr>) else Inl SegmentationFault)"

section \<open>The brace map: \<open>make_brace_map\<close>\<close>

text \<open>
  The \<open>for position, command in enumerate(program)\<close> loop, as a recursion over the rest
  of the program with the running position. \<open>temp_stack\<close> is a \<open>collections.deque\<close>: the
  list holds it from its left end to its right end, so \<open>append\<close> adds at the end of the
  list and \<open>popleft\<close> removes its head and raises \<open>IndexError\<close> when there is none. The
  dictionary \<open>brace_map\<close> is a map from positions to positions. The two \<open>if\<close>s of the
  loop body are run one after the other, as in the source.
\<close>

fun brace_scan :: "nat \<Rightarrow> string \<Rightarrow> nat list \<Rightarrow> (nat \<rightharpoonup> nat) \<Rightarrow> error + (nat \<rightharpoonup> nat)" where
  "brace_scan position [] temp_stack brace_map = Inr brace_map"
| "brace_scan position (command # rest) temp_stack brace_map =
     (let temp_stack1 = (if command = CHR ''['' then temp_stack @ [position] else temp_stack) in
      if command = CHR '']''
      then (case temp_stack1 of
              [] \<Rightarrow> Inl IndexError
            | start # temp_stack2 \<Rightarrow>
                brace_scan (position + 1) rest temp_stack2
                  (brace_map(start \<mapsto> position, position \<mapsto> start)))
      else brace_scan (position + 1) rest temp_stack1 brace_map)"

definition make_brace_map :: "string \<Rightarrow> error + (nat \<rightharpoonup> nat)" where
  "make_brace_map program = brace_scan 0 program [] Map.empty"

section \<open>The interpreter: \<open>interpret\<close>\<close>

text \<open>
  The function \<open>interpret\<close> of the source is \<open>interpret_program\<close> here (the source's
  name is a keyword of Isabelle).

  The local variables of \<open>interpret\<close> and the two streams it uses: \<open>stdin\<close> holds the code
  points of the characters \<open>getch\<close> has still to deliver, \<open>stdout\<close> the code points
  written so far, in order.
\<close>

record interp =
  machine :: Array
  position :: nat
  stdin :: "int list"
  stdout :: "int list"

definition advance :: "interp \<Rightarrow> interp" where
  "advance st = st\<lparr>position := position st + 1\<rparr>"

text \<open>
  One turn of the \<open>while\<close> loop, entered with \<open>position < len(program)\<close>: the
  \<open>if\<close>/\<open>elif\<close> chain in the order of the source, then \<open>position += 1\<close>. An exception
  leaves the loop at once.
\<close>

definition step :: "string \<Rightarrow> (nat \<rightharpoonup> nat) \<Rightarrow> interp \<Rightarrow> error + interp" where
  "step program brace_map st =
     (let current_char = program ! position st; m = machine st in
      if current_char = CHR ''>'' then Inr (advance (st\<lparr>machine := right m\<rparr>))
      else if current_char = CHR ''<'' then
        (case left m of
           Inl e \<Rightarrow> Inl e
         | Inr m' \<Rightarrow> Inr (advance (st\<lparr>machine := m'\<rparr>)))
      else if current_char = CHR ''+'' then Inr (advance (st\<lparr>machine := increment m\<rparr>))
      else if current_char = CHR ''-'' then Inr (advance (st\<lparr>machine := decrement m\<rparr>))
      else if current_char = CHR ''.'' then
        (if 0 \<le> get_data m \<and> get_data m < 1114112
         then Inr (advance (st\<lparr>stdout := stdout st @ [get_data m]\<rparr>))
         else Inl ChrOutOfRange)
      else if current_char = CHR '','' then
        (case stdin st of
           [] \<Rightarrow> Inl OrdOfEmpty
         | ch # chs \<Rightarrow> Inr (advance (st\<lparr>machine := set_data m ch, stdin := chs\<rparr>)))
      else if current_char = CHR ''['' \<and> get_data m = 0 then
        (case brace_map (position st) of
           None \<Rightarrow> Inl (KeyError (position st))
         | Some q \<Rightarrow> Inr (advance (st\<lparr>position := q\<rparr>)))
      else if current_char = CHR '']'' \<and> get_data m \<noteq> 0 then
        (case brace_map (position st) of
           None \<Rightarrow> Inl (KeyError (position st))
         | Some q \<Rightarrow> Inr (advance (st\<lparr>position := q\<rparr>)))
      else Inr (advance st))"

text \<open>
  The \<open>while position < len(program)\<close> loop may run forever, so it takes fuel: the
  number of turns it may still make. \<open>None\<close> means the fuel ran out before the loop
  ended. A run that raises gives the exception together with what was left of the input
  and what had been written when it was raised.
\<close>

type_synonym failure = "error \<times> int list \<times> int list"

fun interpret_loop :: "nat \<Rightarrow> string \<Rightarrow> (nat \<rightharpoonup> nat) \<Rightarrow> interp \<Rightarrow> (failure + interp) option" where
  "interpret_loop 0 program brace_map st =
     (if position st < length program then None else Some (Inr st))"
| "interpret_loop (Suc fuel) program brace_map st =
     (if position st < length program
      then (case step program brace_map st of
              Inl e \<Rightarrow> Some (Inl (e, stdin st, stdout st))
            | Inr st' \<Rightarrow> interpret_loop fuel program brace_map st')
      else Some (Inr st))"

definition interpret_program :: "nat \<Rightarrow> string \<Rightarrow> int list \<Rightarrow> (failure + interp) option" where
  "interpret_program fuel program input =
     (case make_brace_map program of
        Inl e \<Rightarrow> Some (Inl (e, input, []))
      | Inr brace_map \<Rightarrow>
          interpret_loop fuel program brace_map
            \<lparr>machine = Array_init, position = 0, stdin = input, stdout = []\<rparr>)"

section \<open>Sequences of tape operations\<close>

text \<open>
  The states a tape can reach are the results of running lists of method calls on it.
  \<open>Write n\<close> is \<open>set_data(n)\<close>; a run stops at the exception of \<open>left\<close>.
\<close>

datatype tape_op = Write int | Increment | Decrement | MoveRight | MoveLeft

fun apply_op :: "Array \<Rightarrow> tape_op \<Rightarrow> error + Array" where
  "apply_op s (Write n) = Inr (set_data s n)"
| "apply_op s Increment = Inr (increment s)"
| "apply_op s Decrement = Inr (decrement s)"
| "apply_op s MoveRight = Inr (right s)"
| "apply_op s MoveLeft = left s"

fun run_ops :: "Array \<Rightarrow> tape_op list \<Rightarrow> error + Array" where
  "run_ops s [] = Inr s"
| "run_ops s (x # xs) = (case apply_op s x of Inl e \<Rightarrow> Inl e | Inr s' \<Rightarrow> run_ops s' xs)"

fun is_write :: "tape_op \<Rightarrow> bool" where
  "is_write (Write n) = True"
| "is_write _ = False"

text \<open>
  A call stays within bytes when it writes a value of \<open>[0, 255]\<close> or increments a cell
  below 255; a list of calls does when each call does in the state it is made in.
\<close>

fun byte_call :: "Array \<Rightarrow> tape_op \<Rightarrow> bool" where
  "byte_call s (Write n) = (0 \<le> n \<and> n \<le> 255)"
| "byte_call s Increment = (get_data s < 255)"
| "byte_call s _ = True"

fun byte_calls :: "Array \<Rightarrow> tape_op list \<Rightarrow> bool" where
  "byte_calls s [] = True"
| "byte_calls s (x # xs) =
     (byte_call s x \<and> (case apply_op s x of Inl e \<Rightarrow> True | Inr s' \<Rightarrow> byte_calls s' xs))"

definition cells_within :: "int \<Rightarrow> Array \<Rightarrow> bool" where
  "cells_within hi s = list_all (\<lambda>c. 0 \<le> c \<and> c \<le> hi) (array s)"

section \<open>Bracket structure, as the specification words it\<close>

text \<open>
  \<open>unmatched_close d program\<close>: scanning \<open>program\<close> with \<open>d\<close> brackets open, some \<open>]\<close>
  is met with none open.
\<close>

fun unmatched_close :: "nat \<Rightarrow> string \<Rightarrow> bool" where
  "unmatched_close d [] = False"
| "unmatched_close d (c # cs) =
     (if c = CHR ''['' then unmatched_close (d + 1) cs
      else if c = CHR '']'' then (d = 0 \<or> unmatched_close (d - 1) cs)
      else unmatched_close d cs)"

text \<open>
  \<open>unmatched_open d program\<close>: no \<open>]\<close> is unmatched and some \<open>[\<close> is still open at
  the end of the scan.
\<close>

fun unmatched_open :: "nat \<Rightarrow> string \<Rightarrow> bool" where
  "unmatched_open d [] = (d > 0)"
| "unmatched_open d (c # cs) =
     (if c = CHR ''['' then unmatched_open (d + 1) cs
      else if c = CHR '']'' then (d > 0 \<and> unmatched_open (d - 1) cs)
      else unmatched_open d cs)"

text \<open>
  The pairing the specification describes (its section 4.2), for comparison with
  \<open>make_brace_map\<close>: a last-in-first-out stack of pending \<open>[\<close> positions, the most
  recently pushed one popped and paired at each \<open>]\<close>; a \<open>]\<close> met with the stack empty,
  or a \<open>[\<close> left on it at the end, is a structural error (\<open>None\<close>). The head of the
  list is the top of the stack.
\<close>

fun nested_scan :: "nat \<Rightarrow> string \<Rightarrow> nat list \<Rightarrow> (nat \<rightharpoonup> nat) \<Rightarrow> (nat \<rightharpoonup> nat) option" where
  "nested_scan pos [] stack table = (if stack = [] then Some table else None)"
| "nested_scan pos (command # rest) stack table =
     (if command = CHR ''['' then nested_scan (pos + 1) rest (pos # stack) table
      else if command = CHR '']''
      then (case stack of
              [] \<Rightarrow> None
            | p # stack' \<Rightarrow>
                nested_scan (pos + 1) rest stack' (table(p \<mapsto> pos, pos \<mapsto> p)))
      else nested_scan (pos + 1) rest stack table)"

definition build_jump_table :: "string \<Rightarrow> (nat \<rightharpoonup> nat) option" where
  "build_jump_table instructions = nested_scan 0 instructions [] Map.empty"

section \<open>Basic facts about the tape\<close>

lemma ptr_valid_Array_init: "ptr_valid Array_init"
  by (simp add: ptr_valid_def Array_init_def)

lemma ptr_valid_set_data: "ptr_valid s \<Longrightarrow> ptr_valid (set_data s n)"
  by (simp add: ptr_valid_def set_data_def)

lemma ptr_valid_increment: "ptr_valid s \<Longrightarrow> ptr_valid (increment s)"
  by (simp add: ptr_valid_def increment_def Let_def)

lemma ptr_valid_decrement: "ptr_valid s \<Longrightarrow> ptr_valid (decrement s)"
  by (simp add: ptr_valid_def decrement_def Let_def)

lemma ptr_valid_right: "ptr_valid s \<Longrightarrow> ptr_valid (right s)"
  by (simp add: ptr_valid_def right_def Let_def)

lemma ptr_valid_left: "ptr_valid s \<Longrightarrow> left s = Inr s' \<Longrightarrow> ptr_valid s'"
  by (auto simp: ptr_valid_def left_def split: if_splits)

section \<open>Cell bounds and runs of tape operations\<close>

lemma list_all_update:
  "list_all P xs \<Longrightarrow> P x \<Longrightarrow> list_all P (xs[i := x])"
  by (induction xs arbitrary: i) (auto split: nat.splits)

lemma list_all_nth: "list_all P xs \<Longrightarrow> i < length xs \<Longrightarrow> P (xs ! i)"
  by (simp add: list_all_length)

lemma cells_within_set_data:
  "cells_within hi s \<Longrightarrow> 0 \<le> n \<Longrightarrow> n \<le> hi \<Longrightarrow> cells_within hi (set_data s n)"
  by (simp add: cells_within_def set_data_def list_all_update)

lemma cells_within_decrement:
  assumes "cells_within hi s" "ptr_valid s" "255 \<le> hi"
  shows "cells_within hi (decrement s)"
proof -
  let ?c = "array s ! ptr s"
  have c: "0 \<le> ?c \<and> ?c \<le> hi"
    using assms(1,2) list_all_nth[of "\<lambda>c. 0 \<le> c \<and> c \<le> hi" "array s" "ptr s"]
    by (simp add: cells_within_def ptr_valid_def)
  have "0 \<le> (?c - 1) mod 256 \<and> (?c - 1) mod 256 \<le> hi"
    using assms(3) pos_mod_bound[of 256 "?c - 1"] by simp
  then show ?thesis
    using assms c by (simp add: cells_within_def decrement_def Let_def ptr_valid_def list_all_update)
qed

lemma cells_within_increment_256:
  assumes "cells_within 256 s" "ptr_valid s"
  shows "cells_within 256 (increment s)"
proof -
  let ?c = "array s ! ptr s"
  have c: "0 \<le> ?c \<and> ?c \<le> 256"
    using assms list_all_nth[of "\<lambda>c. 0 \<le> c \<and> c \<le> 256" "array s" "ptr s"]
    by (simp add: cells_within_def ptr_valid_def)
  have "0 \<le> (?c + 1) mod 256 \<and> (?c + 1) mod 256 \<le> 256"
    using pos_mod_bound[of 256 "?c + 1"] by simp
  then show ?thesis
    using assms c by (simp add: cells_within_def increment_def Let_def ptr_valid_def list_all_update)
qed

lemma cells_within_increment_byte:
  assumes "cells_within 255 s" "ptr_valid s" "get_data s < 255"
  shows "cells_within 255 (increment s)"
proof -
  let ?c = "array s ! ptr s"
  have c: "0 \<le> ?c \<and> ?c < 255"
    using assms list_all_nth[of "\<lambda>c. 0 \<le> c \<and> c \<le> 255" "array s" "ptr s"]
    by (simp add: cells_within_def ptr_valid_def get_data_def)
  then show ?thesis
    using assms by (simp add: cells_within_def increment_def Let_def ptr_valid_def list_all_update)
qed

lemma cells_within_right: "cells_within hi s \<Longrightarrow> 0 \<le> hi \<Longrightarrow> cells_within hi (right s)"
  by (simp add: cells_within_def right_def Let_def)

lemma cells_within_left: "cells_within hi s \<Longrightarrow> left s = Inr s' \<Longrightarrow> cells_within hi s'"
  by (auto simp: cells_within_def left_def split: if_splits)

lemma cells_within_Array_init: "0 \<le> hi \<Longrightarrow> cells_within hi Array_init"
  by (simp add: cells_within_def Array_init_def list_all_iff)

lemma ptr_valid_apply_op: "ptr_valid s \<Longrightarrow> apply_op s x = Inr s' \<Longrightarrow> ptr_valid s'"
  by (cases x) (auto simp: ptr_valid_set_data ptr_valid_increment ptr_valid_decrement
      ptr_valid_right ptr_valid_left)

lemma ptr_valid_run_ops: "ptr_valid s \<Longrightarrow> run_ops s xs = Inr s' \<Longrightarrow> ptr_valid s'"
  by (induction xs arbitrary: s) (auto split: sum.splits dest: ptr_valid_apply_op)

lemma cells_256_apply_op:
  "cells_within 256 s \<Longrightarrow> ptr_valid s \<Longrightarrow> \<not> is_write x \<Longrightarrow> apply_op s x = Inr s'
   \<Longrightarrow> cells_within 256 s'"
  by (cases x) (auto simp: cells_within_increment_256 cells_within_decrement
      cells_within_right cells_within_left)

lemma cells_256_run_ops:
  "cells_within 256 s \<Longrightarrow> ptr_valid s \<Longrightarrow> list_all (\<lambda>x. \<not> is_write x) xs
   \<Longrightarrow> run_ops s xs = Inr s' \<Longrightarrow> cells_within 256 s'"
proof (induction xs arbitrary: s)
  case Nil
  then show ?case by simp
next
  case (Cons x xs)
  from Cons.prems(4) obtain s1 where s1: "apply_op s x = Inr s1" "run_ops s1 xs = Inr s'"
    by (auto split: sum.splits)
  have "cells_within 256 s1" "ptr_valid s1"
    using Cons.prems s1 cells_256_apply_op ptr_valid_apply_op by auto
  then show ?case using Cons.IH[of s1] Cons.prems(3) s1(2) by simp
qed

lemma cells_byte_apply_op:
  "cells_within 255 s \<Longrightarrow> ptr_valid s \<Longrightarrow> byte_call s x \<Longrightarrow> apply_op s x = Inr s'
   \<Longrightarrow> cells_within 255 s'"
  by (cases x) (auto simp: cells_within_increment_byte cells_within_decrement
      cells_within_right cells_within_left cells_within_set_data)

lemma cells_byte_run_ops:
  "cells_within 255 s \<Longrightarrow> ptr_valid s \<Longrightarrow> byte_calls s xs
   \<Longrightarrow> run_ops s xs = Inr s' \<Longrightarrow> cells_within 255 s'"
proof (induction xs arbitrary: s)
  case Nil
  then show ?case by simp
next
  case (Cons x xs)
  from Cons.prems(4) obtain s1 where s1: "apply_op s x = Inr s1" "run_ops s1 xs = Inr s'"
    by (auto split: sum.splits)
  have "cells_within 255 s1" "ptr_valid s1"
    using Cons.prems s1 cells_byte_apply_op ptr_valid_apply_op by auto
  then show ?case using Cons.IH[of s1] Cons.prems(3) s1 by simp
qed

lemma increment_at_255: "ptr_valid s \<Longrightarrow> get_data s = 255 \<Longrightarrow> get_data (increment s) = 256 \<and> logged (increment s) = logged s"
  by (simp add: ptr_valid_def get_data_def increment_def Let_def)

lemma increment_at_256: "ptr_valid s \<Longrightarrow> get_data s = 256 \<Longrightarrow> get_data (increment s) = 1 \<and> logged (increment s) = logged s @ [Buffer_overflow (ptr s)]"
  by (simp add: ptr_valid_def get_data_def increment_def Let_def)

lemma increment_pow_Array_init:
  "n \<le> 256 \<Longrightarrow> (increment ^^ n) Array_init = Array_init\<lparr>array := (replicate 30000 0)[0 := int n]\<rparr>"
proof (induction n)
  case 0
  have "(replicate 30000 (0::int))[0 := 0] = replicate 30000 0"
    using list_update_id[of "replicate 30000 (0::int)" 0] by simp
  then show ?case by (simp add: Array_init_def)
next
  case (Suc n)
  then have "(increment ^^ n) Array_init = Array_init\<lparr>array := (replicate 30000 0)[0 := int n]\<rparr>"
    and "int n + 1 \<le> 256"
    by simp_all
  then have "increment ((increment ^^ n) Array_init)
      = Array_init\<lparr>array := (replicate 30000 0)[0 := int n + 1]\<rparr>"
    by (simp add: increment_def Array_init_def Let_def)
  then show ?case by (simp add: add.commute)
qed

lemma right_pow:
  "ptr_valid s \<Longrightarrow> ptr ((right ^^ N) s) = ptr s + N \<and>
     array ((right ^^ N) s) = array s @ replicate (ptr s + N + 1 - length (array s)) 0 \<and>
     logged ((right ^^ N) s) = logged s"
proof (induction N)
  case 0
  then show ?case by (simp add: ptr_valid_def)
next
  case (Suc N)
  then show ?case 
    apply (simp add: right_def Let_def ptr_valid_def)
    apply (auto simp: replicate_append_same Suc_diff_le)
    done
qed

section \<open>Facts about the interpreter loop and the brace scan\<close>

lemma interpret_loop_numeral:
  "interpret_loop (numeral k) program brace_map st =
     (if position st < length program
      then (case step program brace_map st of
              Inl e \<Rightarrow> Some (Inl (e, stdin st, stdout st))
            | Inr st' \<Rightarrow> interpret_loop (pred_numeral k) program brace_map st')
      else Some (Inr st))"
  by (simp add: numeral_eq_Suc)

lemma interpret_loop_more_fuel:
  "interpret_loop n program bm st = Some r \<Longrightarrow> interpret_loop (n + k) program bm st = Some r"
proof (induction n arbitrary: st)
  case 0
  then show ?case by (cases k) (auto split: if_splits)
next
  case (Suc n)
  then show ?case by (auto split: if_splits sum.splits)
qed

lemma brace_scan_fails_iff:
  "(brace_scan pos cs stack bm = Inl e) \<longleftrightarrow> (e = IndexError \<and> unmatched_close (length stack) cs)"
proof (induction cs arbitrary: pos stack bm)
  case Nil
  then show ?case by simp
next
  case (Cons c cs)
  show ?case
  proof (cases "c = CHR '']''")
    case True
    then show ?thesis using Cons.IH by (cases stack) (auto simp: Let_def)
  next
    case False
    then show ?thesis using Cons.IH[of "pos + 1" "stack @ [pos]" bm] Cons.IH[of "pos + 1" stack bm]
      by (auto simp: Let_def)
  qed
qed

lemma unmatched_open_not_close: "unmatched_open d cs \<Longrightarrow> \<not> unmatched_close d cs"
  by (induction d cs rule: unmatched_open.induct) (auto split: if_splits)

lemma brace_scan_involution:
  assumes "brace_scan pos cs stack bm = Inr bm'"
    and "distinct stack"
    and "\<forall>q \<in> set stack. q < pos \<and> bm q = None"
    and "\<forall>k v. bm k = Some v \<longrightarrow> k < pos \<and> bm v = Some k"
  shows "\<forall>k v. bm' k = Some v \<longrightarrow> bm' v = Some k"
  using assms
proof (induction cs arbitrary: pos stack bm)
  case Nil
  from Nil.prems(1) have "bm' = bm" by simp
  with Nil.prems(4) show ?case by blast
next
  case (Cons c cs)
  have inv: "\<And>k v. bm k = Some v \<Longrightarrow> k < pos \<and> bm v = Some k"
    using Cons.prems(4) by blast
  have nopos: "bm pos = None"
  proof (cases "bm pos")
    case None
    then show ?thesis .
  next
    case (Some a)
    then have "pos < pos" using inv by blast
    then show ?thesis by simp
  qed
  have b0: "\<forall>k v. bm k = Some v \<longrightarrow> k < pos + 1 \<and> bm v = Some k"
  proof (intro allI impI)
    fix k v assume "bm k = Some v"
    then have "k < pos \<and> bm v = Some k" by (rule inv)
    then show "k < pos + 1 \<and> bm v = Some k" by simp
  qed
  have stk: "\<And>q. q \<in> set stack \<Longrightarrow> q < pos \<and> bm q = None"
    using Cons.prems(3) by blast
  show ?case
  proof (cases "c = CHR '']''")
    case True
    have "stack \<noteq> []"
      using Cons.prems(1) True by (auto simp: Let_def)
    then obtain start rest where st: "stack = start # rest"
      by (cases stack) auto
    let ?bm = "bm(start \<mapsto> pos, pos \<mapsto> start)"
    have scan: "brace_scan (pos + 1) cs rest ?bm = Inr bm'"
      using Cons.prems(1) True st by (simp add: Let_def)
    have start: "start < pos" "bm start = None" "start \<notin> set rest" "distinct rest"
      using Cons.prems(2) stk[of start] st by simp_all
    have a: "\<forall>q \<in> set rest. q < pos + 1 \<and> ?bm q = None"
    proof
      fix q assume q: "q \<in> set rest"
      then have "q < pos \<and> bm q = None" using stk[of q] st by simp
      moreover have "q \<noteq> start" using q start(3) by blast
      ultimately show "q < pos + 1 \<and> ?bm q = None" by simp
    qed
    have b: "\<forall>k v. ?bm k = Some v \<longrightarrow> k < pos + 1 \<and> ?bm v = Some k"
    proof (intro allI impI)
      fix k v assume kv: "?bm k = Some v"
      show "k < pos + 1 \<and> ?bm v = Some k"
      proof (cases "k = pos \<or> k = start")
        case True
        then show ?thesis using kv start(1) by auto
      next
        case False
        then have old: "bm k = Some v" using kv by simp
        then have kv': "k < pos" "bm v = Some k" using inv[of k v] by simp_all
        have "v \<noteq> pos" "v \<noteq> start" using kv'(2) nopos start(2) by auto
        then show ?thesis using kv' by simp
      qed
    qed
    show ?thesis by (rule Cons.IH[OF scan start(4) a b])
  next
    case False
    note notclose = this
    show ?thesis
    proof (cases "c = CHR ''[''")
      case True
      have scan: "brace_scan (pos + 1) cs (stack @ [pos]) bm = Inr bm'"
        using Cons.prems(1) True by (simp add: Let_def)
      have "pos \<notin> set stack" using stk[of pos] by auto
      then have d: "distinct (stack @ [pos])" using Cons.prems(2) by simp
      have a: "\<forall>q \<in> set (stack @ [pos]). q < pos + 1 \<and> bm q = None"
      proof
        fix q assume "q \<in> set (stack @ [pos])"
        then have "q = pos \<or> q \<in> set stack" by auto
        then show "q < pos + 1 \<and> bm q = None"
          using nopos stk[of q] by auto
      qed
      show ?thesis by (rule Cons.IH[OF scan d a b0])
    next
      case False
      have scan: "brace_scan (pos + 1) cs stack bm = Inr bm'"
        using Cons.prems(1) False notclose by (simp add: Let_def)
      have a: "\<forall>q \<in> set stack. q < pos + 1 \<and> bm q = None"
      proof
        fix q assume "q \<in> set stack"
        then show "q < pos + 1 \<and> bm q = None" using stk[of q] by simp
      qed
      show ?thesis by (rule Cons.IH[OF scan Cons.prems(2) a b0])
    qed
  qed
qed

section \<open>Claims about the tape\<close>

text \<open>
  C1. The claim: on a fresh tape, 256 calls of \<open>increment\<close> bring the current cell back to
  0 and the overflow is logged at the 256th call. The code at this input: the guard of
  \<open>increment\<close> is \<open>> 256\<close>, so the 256th call takes the cell from 255 to 256, leaves it
  there and logs nothing; only the 257th call logs the overflow, and it stores
  \<open>257 mod 256 = 1\<close>. The cell never returns to 0.
\<close>

theorem increment_256_times_leaves_256:
  "get_data ((increment ^^ 256) Array_init) = 256
   \<and> logged ((increment ^^ 256) Array_init) = []
   \<and> get_data ((increment ^^ 255) Array_init) = 255
   \<and> get_data (increment ((increment ^^ 256) Array_init)) = 1
   \<and> logged (increment ((increment ^^ 256) Array_init)) = [Buffer_overflow 0]"
proof -
  have a: "(increment ^^ 256) Array_init = Array_init\<lparr>array := (replicate 30000 0)[0 := 256]\<rparr>"
    using increment_pow_Array_init[of 256] by simp
  have b: "(increment ^^ 255) Array_init = Array_init\<lparr>array := (replicate 30000 0)[0 := 255]\<rparr>"
    using increment_pow_Array_init[of 255] by simp
  show ?thesis
    unfolding a b by (simp add: get_data_def Array_init_def increment_def Let_def)
qed

text \<open>
  C7. \<open>left\<close> with the pointer at 0 fails with the \<open>ValueError\<close> of the source, and the
  interpreter loop that meets \<open><\<close> in such a state stops with that error; \<open>left\<close> with
  the pointer above 0 succeeds and the new pointer is exactly one less, the cells and the
  log being untouched.
\<close>

theorem left_fails_at_zero_else_decrements:
  "(ptr s = 0 \<longrightarrow>
      left s = Inl SegmentationFault
      \<and> (position st < length program \<and> program ! position st = CHR ''<'' \<and> machine st = s
           \<longrightarrow> interpret_loop (Suc fuel) program brace_map st
                = Some (Inl (SegmentationFault, stdin st, stdout st))))
   \<and> (ptr s > 0 \<longrightarrow>
      (\<exists>s'. left s = Inr s' \<and> ptr s' + 1 = ptr s \<and> array s' = array s \<and> logged s' = logged s))"
  by (auto simp: left_def step_def Let_def)

text \<open>
  Both cases of C7 on the tape of the source: the fresh tape has its pointer at 0, and
  after one \<open>right\<close> the pointer is 1 and \<open>left\<close> gives the fresh tape back.
\<close>

theorem left_fails_at_zero_else_decrements_witness:
  "ptr Array_init = 0 \<and> left Array_init = Inl SegmentationFault
   \<and> interpret_loop (Suc 0) ''<'' Map.empty
        \<lparr>machine = Array_init, position = 0, stdin = [], stdout = []\<rparr>
      = Some (Inl (SegmentationFault, [], []))
   \<and> ptr (right Array_init) > 0
   \<and> left (right Array_init) = Inr Array_init"
proof -
  let ?st = "\<lparr>machine = Array_init, position = 0, stdin = [], stdout = []\<rparr>"
  have p0: "ptr Array_init = 0" by (simp add: Array_init_def)
  have r: "right Array_init = Array_init\<lparr>ptr := 1\<rparr>"
    by (simp add: right_def Array_init_def Let_def)
  have p1: "ptr (right Array_init) > 0" by (simp add: r)
  from left_fails_at_zero_else_decrements[of Array_init ?st "''<''" 0 Map.empty] p0
  have a: "left Array_init = Inl SegmentationFault"
    and b: "interpret_loop (Suc 0) ''<'' Map.empty ?st = Some (Inl (SegmentationFault, [], []))"
    by simp_all
  from left_fails_at_zero_else_decrements[of "right Array_init"] p1
  obtain s' where s': "left (right Array_init) = Inr s'" by blast
  then have "s' = Array_init" unfolding r by (auto simp: left_def Array_init_def)
  with s' p0 p1 a b show ?thesis by simp
qed

text \<open>
  C6. On a zero tape of \<open>L\<close> cells with the pointer at 0 (so \<open>L > 0\<close>: the pointer is an
  index of the tape), \<open>N\<close> calls of \<open>right\<close> leave the pointer at \<open>N\<close> and a tape of
  \<open>max L (N + 1)\<close> cells, all zero; the call after them appends exactly one zero cell when
  it moves past the end (\<open>L \<le> N + 1\<close>) and none otherwise. \<open>right\<close> has no failure.
\<close>

theorem right_N_times:
  assumes "0 < L"
  shows "ptr ((right ^^ N) (zero_tape L)) = N
     \<and> length (array ((right ^^ N) (zero_tape L))) = max L (N + 1)
     \<and> array ((right ^^ N) (zero_tape L)) = replicate (max L (N + 1)) 0
     \<and> array ((right ^^ (N + 1)) (zero_tape L))
        = (if L \<le> N + 1 then array ((right ^^ N) (zero_tape L)) @ [0]
           else array ((right ^^ N) (zero_tape L)))"
proof -
  have v: "ptr_valid (zero_tape L)" using assms by (simp add: ptr_valid_def zero_tape_def)
  have z: "ptr (zero_tape L) = 0" "array (zero_tape L) = replicate L 0"
    by (simp_all add: zero_tape_def)
  have arr: "array ((right ^^ M) (zero_tape L)) = replicate (max L (M + 1)) 0" for M
  proof -
    have "array ((right ^^ M) (zero_tape L)) = replicate L 0 @ replicate (M + 1 - L) 0"
      using right_pow[OF v, of M] z by simp
    also have "\<dots> = replicate (L + (M + 1 - L)) (0::int)"
      by (simp only: replicate_add)
    also have "L + (M + 1 - L) = max L (M + 1)" by simp
    finally show ?thesis .
  qed
  have p: "ptr ((right ^^ N) (zero_tape L)) = N"
    using right_pow[OF v, of N] z by simp
  have step: "array ((right ^^ (N + 1)) (zero_tape L))
        = (if L \<le> N + 1 then array ((right ^^ N) (zero_tape L)) @ [0]
           else array ((right ^^ N) (zero_tape L)))"
    unfolding arr by (auto simp: max_def replicate_append_same simp flip: replicate_Suc)
  show ?thesis using p arr[of N] step by simp
qed

text \<open>
  C6 at \<open>L = 2\<close>, \<open>N = 3\<close>, and on the tape of the source (\<open>L = 30000\<close>).
\<close>

theorem right_N_times_witness:
  "(0::nat) < 2 \<and> ptr ((right ^^ 3) (zero_tape 2)) = 3
   \<and> length (array ((right ^^ 3) (zero_tape 2))) = 4
   \<and> array ((right ^^ 3) (zero_tape 2)) = [0, 0, 0, 0]
   \<and> array ((right ^^ 4) (zero_tape 2)) = array ((right ^^ 3) (zero_tape 2)) @ [0]
   \<and> length (array ((right ^^ 3) Array_init)) = 30000"
proof -
  have A: "Array_init = zero_tape 30000" by (simp add: Array_init_def zero_tape_def)
  have r4: "replicate 4 (0::int) = [0, 0, 0, 0]" by (simp add: numeral_eq_Suc)
  show ?thesis
    using right_N_times[of 2 3] right_N_times[of 30000 3] unfolding A
    by (simp add: r4)
qed

text \<open>
  C10. Every tape reached from the fresh tape by \<open>increment\<close>, \<open>decrement\<close>, \<open>right\<close>
  and \<open>left\<close> alone has all its cells in \<open>[0, 256]\<close>; and 256 is taken: when the current
  cell of such a tape holds 255, \<open>increment\<close> leaves it holding 256, and the next
  \<open>increment\<close> takes it from 256 to 1.
\<close>

theorem cells_at_most_256:
  assumes "run_ops Array_init ops = Inr s"
    and "list_all (\<lambda>x. \<not> is_write x) ops"
  shows "cells_within 256 s
     \<and> (get_data s = 255 \<longrightarrow>
          get_data (increment s) = 256
          \<and> get_data (increment (increment s)) = 1)"
proof -
  have v: "ptr_valid s"
    using ptr_valid_run_ops[OF ptr_valid_Array_init assms(1)] .
  have c: "cells_within 256 s"
    using cells_256_run_ops[OF cells_within_Array_init ptr_valid_Array_init assms(2) assms(1)]
    by simp
  have "get_data (increment s) = 256 \<and> get_data (increment (increment s)) = 1"
    if h: "get_data s = 255"
  proof -
    have a: "get_data (increment s) = 256" using increment_at_255[OF v h] by simp
    have "ptr_valid (increment s)" using v by (rule ptr_valid_increment)
    then show ?thesis using increment_at_256[OF _ a] a by simp
  qed
  with c show ?thesis by blast
qed

text \<open>
  C10 on the tape after one \<open>decrement\<close>, whose current cell holds 255.
\<close>

theorem cells_at_most_256_witness:
  "run_ops Array_init [Decrement] = Inr (decrement Array_init)
   \<and> list_all (\<lambda>x. \<not> is_write x) [Decrement]
   \<and> cells_within 256 (decrement Array_init)
   \<and> get_data (decrement Array_init) = 255
   \<and> get_data (increment (decrement Array_init)) = 256
   \<and> get_data (increment (increment (decrement Array_init))) = 1"
proof -
  have r: "run_ops Array_init [Decrement] = Inr (decrement Array_init)" by simp
  have n: "list_all (\<lambda>x. \<not> is_write x) [Decrement]" by simp
  have d: "get_data (decrement Array_init) = 255"
    by (simp add: decrement_def get_data_def Array_init_def Let_def)
  from cells_at_most_256[OF r n] d r n show ?thesis by simp
qed

text \<open>
  C4, as the claim states it, fails: \<open>set_data\<close> stores its argument as it is, so
  \<open>set_data(300)\<close> (the code point of a character \<open>getch\<close> can deliver) leaves 300 in the
  current cell, not \<open>300 mod 256 = 44\<close>, and the cell is outside \<open>[0, 255]\<close>.
\<close>

theorem set_data_300_not_reduced:
  "run_ops Array_init [Write 300] = Inr (set_data Array_init 300)
   \<and> get_data (set_data Array_init 300) = 300
   \<and> get_data (set_data Array_init 300) \<noteq> 300 mod 256
   \<and> \<not> cells_within 255 (set_data Array_init 300)"
proof -
  have g: "get_data (set_data Array_init 300) = 300"
    by (simp add: set_data_def get_data_def Array_init_def)
  have "\<not> cells_within 255 (set_data Array_init 300)"
  proof
    assume "cells_within 255 (set_data Array_init 300)"
    then have "list_all (\<lambda>c. 0 \<le> c \<and> c \<le> 255) (array (set_data Array_init 300))"
      by (simp add: cells_within_def)
    from list_all_nth[OF this, of 0] have "array (set_data Array_init 300) ! 0 \<le> 255"
      by (simp add: set_data_def Array_init_def)
    then show False by (simp add: set_data_def Array_init_def)
  qed
  with g show ?thesis by simp
qed

text \<open>
  C4, amended. Every tape reached from the fresh tape by calls that stay within bytes
  (\<open>set_data\<close> of a value in \<open>[0, 255]\<close>, \<open>increment\<close> of a cell below 255,
  \<open>decrement\<close>, \<open>right\<close>, \<open>left\<close>) has all its cells in \<open>[0, 255]\<close>. On such a tape
  \<open>set_data(n)\<close> stores \<open>n\<close> itself, \<open>decrement\<close> stores the cell minus one modulo 256
  (255 from 0), and \<open>increment\<close> of a cell below 255 stores the cell plus one. Nothing is
  said of \<open>increment\<close> on a cell that holds 255.
\<close>

theorem cells_stay_bytes:
  assumes "run_ops Array_init ops = Inr s"
    and "byte_calls Array_init ops"
  shows "cells_within 255 s
     \<and> get_data (set_data s n) = n
     \<and> get_data (decrement s) = (get_data s - 1) mod 256
     \<and> (get_data s < 255 \<longrightarrow> get_data (increment s) = get_data s + 1)"
proof -
  have v: "ptr_valid s"
    using ptr_valid_run_ops[OF ptr_valid_Array_init assms(1)] .
  have c: "cells_within 255 s"
    using cells_byte_run_ops[OF cells_within_Array_init ptr_valid_Array_init assms(2) assms(1)]
    by simp
  have g: "0 \<le> get_data s \<and> get_data s \<le> 255"
    using c v list_all_nth[of "\<lambda>c. 0 \<le> c \<and> c \<le> 255" "array s" "ptr s"]
    by (simp add: cells_within_def ptr_valid_def get_data_def)
  have w: "get_data (set_data s n) = n"
    using v by (simp add: set_data_def get_data_def ptr_valid_def)
  have d: "get_data (decrement s) = (get_data s - 1) mod 256"
    using v g by (simp add: decrement_def get_data_def ptr_valid_def Let_def)
  have i: "get_data s < 255 \<longrightarrow> get_data (increment s) = get_data s + 1"
    using v g by (simp add: increment_def get_data_def ptr_valid_def Let_def)
  from c w d i show ?thesis by simp
qed

text \<open>
  The amended C4 on a run of all five calls.
\<close>

theorem cells_stay_bytes_witness:
  "run_ops Array_init [Write 255, Decrement, MoveRight, Increment, MoveLeft]
     = Inr \<lparr>array = (replicate 30000 0)[0 := 254, 1 := 1], ptr = 0, logged = []\<rparr>
   \<and> byte_calls Array_init [Write 255, Decrement, MoveRight, Increment, MoveLeft]
   \<and> cells_within 255 \<lparr>array = (replicate 30000 0)[0 := 254, 1 := 1], ptr = 0, logged = []\<rparr>
   \<and> get_data (set_data \<lparr>array = (replicate 30000 0)[0 := 254, 1 := 1], ptr = 0, logged = []\<rparr> 7) = 7
   \<and> get_data (decrement \<lparr>array = (replicate 30000 0)[0 := 254, 1 := 1], ptr = 0, logged = []\<rparr>) = 253
   \<and> get_data (increment \<lparr>array = (replicate 30000 0)[0 := 254, 1 := 1], ptr = 0, logged = []\<rparr>) = 255"
proof -
  let ?ops = "[Write 255, Decrement, MoveRight, Increment, MoveLeft]"
  let ?s = "\<lparr>array = (replicate 30000 (0::int))[0 := 254, 1 := 1], ptr = 0, logged = []\<rparr>"
  have r: "run_ops Array_init ?ops = Inr ?s"
    by (simp add: Array_init_def set_data_def decrement_def increment_def right_def left_def
        Let_def)
  have b: "byte_calls Array_init ?ops"
    by (simp add: Array_init_def set_data_def decrement_def increment_def right_def left_def
        get_data_def Let_def)
  have g: "get_data ?s = 254" by (simp add: get_data_def)
  from cells_stay_bytes[OF r b, of 7] g r b show ?thesis by simp
qed

section \<open>Claims about the brace map and the interpreter\<close>

lemmas run_simps = interpret_loop_numeral step_def advance_def Array_init_def increment_def
  decrement_def right_def left_def get_data_def set_data_def Let_def

lemma brace_map_loop_program:
  "make_brace_map ''+[>+<-]'' = Inr [1 \<mapsto> 6, 6 \<mapsto> 1]"
  by (simp add: make_brace_map_def eval_nat_numeral)

text \<open>
  C9. The run of \<open>+[>+<-]\<close> ends, whatever the input: seven turns of the loop are enough
  and six are not, so each of the seven instructions runs once and the loop body runs
  exactly once, which is the value of the tested cell when \<open>[\<close> is first met. At the end
  the tested cell is back at 0, the cell to its right holds 1, nothing was read or
  written, and any larger fuel gives the same final state.
\<close>

theorem loop_program_terminates:
  "interpret_program (7 + k) ''+[>+<-]'' input =
     Some (Inr \<lparr>machine = \<lparr>array = (replicate 30000 0)[1 := 1], ptr = 0, logged = []\<rparr>,
                position = 7, stdin = input, stdout = []\<rparr>)
   \<and> interpret_program 6 ''+[>+<-]'' input = None"
proof -
  let ?init = "\<lparr>machine = Array_init, position = 0, stdin = input, stdout = []\<rparr>"
  let ?bm = "[1 \<mapsto> 6, 6 \<mapsto> (1::nat)]"
  let ?final = "\<lparr>machine = \<lparr>array = (replicate 30000 0)[1 := 1], ptr = 0, logged = []\<rparr>,
                position = 7, stdin = input, stdout = []\<rparr>"
  have cells: "(replicate 30000 (0::int))[0 := 1, 1 := 1, 0 := 0] = (replicate 30000 0)[1 := 1]"
    by (simp add: list_eq_iff_nth_eq nth_list_update)
  have seven: "interpret_loop 7 ''+[>+<-]'' ?bm ?init = Some (Inr ?final)"
    by (simp add: run_simps cells[simplified])
  have six: "interpret_loop 6 ''+[>+<-]'' ?bm ?init = None"
    by (simp add: run_simps)
  from interpret_loop_more_fuel[OF seven, of k] six show ?thesis
    by (simp add: interpret_program_def brace_map_loop_program)
qed

text \<open>
  C2. The claim: each \<open>[\<close> is paired with its matching \<open>]\<close> under nested pairing, the
  innermost \<open>[\<close> with the next \<open>]\<close>. The code at \<open>[[]]\<close>: \<open>temp_stack.popleft()\<close>
  takes the oldest pending \<open>[\<close>, so the outer \<open>[\<close> at 0 is paired with the first \<open>]\<close>
  at 2 and the inner \<open>[\<close> at 1 with the last \<open>]\<close> at 3, where nested pairing gives
  \<open>1 \<leftrightarrow> 2\<close> and \<open>0 \<leftrightarrow> 3\<close>.
\<close>

theorem nested_brackets_paired_first_in_first_out:
  "make_brace_map ''[[]]'' = Inr [0 \<mapsto> 2, 2 \<mapsto> 0, 1 \<mapsto> 3, 3 \<mapsto> 1]
   \<and> build_jump_table ''[[]]'' = Some [1 \<mapsto> 2, 2 \<mapsto> 1, 0 \<mapsto> 3, 3 \<mapsto> 0]
   \<and> [0 \<mapsto> 2, 2 \<mapsto> 0, 1 \<mapsto> 3, 3 \<mapsto> (1::nat)] (0::nat) = Some 2
   \<and> [1 \<mapsto> 2, 2 \<mapsto> 1, 0 \<mapsto> 3, 3 \<mapsto> (0::nat)] (0::nat) = Some 3"
  by (simp add: make_brace_map_def build_jump_table_def eval_nat_numeral)

text \<open>
  C3, as the claim states it, fails for an unmatched \<open>[\<close>: on \<open>.[\<close> the brace map is
  built without error, the run starts, \<open>.\<close> writes the character of code 0, and only
  then \<open>brace_map[position]\<close> raises \<open>KeyError\<close> at the \<open>[\<close>.
\<close>

theorem unmatched_open_runs_then_crashes:
  "unmatched_open 0 ''.[''
   \<and> make_brace_map ''.['' = Inr Map.empty
   \<and> interpret_program 2 ''.['' [] = Some (Inl (KeyError 1, [], [0]))"
proof -
  have u: "unmatched_open 0 ''.[''" by simp
  have m: "make_brace_map ''.['' = Inr Map.empty" by (simp add: make_brace_map_def)
  have "interpret_loop 2 ''.['' Map.empty
          \<lparr>machine = Array_init, position = 0, stdin = [], stdout = []\<rparr>
        = Some (Inl (KeyError 1, [], [0]))"
    by (simp add: run_simps)
  with u m show ?thesis by (simp add: interpret_program_def)
qed

text \<open>
  C3, amended. A program with an unmatched \<open>]\<close> is stopped while the brace map is
  built: \<open>make_brace_map\<close> raises \<open>IndexError\<close>, and the interpreter ends with that error
  for every fuel, zero included, with the input untouched and nothing written (the tape
  is not yet created). A program whose only unmatched brackets are \<open>[\<close> is not stopped
  there: \<open>make_brace_map\<close> returns a map.
\<close>

theorem unmatched_close_detected_before_run:
  "(unmatched_close 0 program \<longrightarrow>
      make_brace_map program = Inl IndexError
      \<and> interpret_program fuel program input = Some (Inl (IndexError, input, [])))
   \<and> (unmatched_open 0 program \<longrightarrow> (\<exists>brace_map. make_brace_map program = Inr brace_map))"
proof -
  have c: "make_brace_map program = Inl IndexError" if "unmatched_close 0 program"
    using that brace_scan_fails_iff[of 0 program "[]" Map.empty IndexError]
    by (simp add: make_brace_map_def)
  have o: "\<exists>brace_map. make_brace_map program = Inr brace_map" if "unmatched_open 0 program"
  proof (cases "make_brace_map program")
    case (Inl e)
    then have "unmatched_close 0 program"
      using brace_scan_fails_iff[of 0 program "[]" Map.empty e]
      by (simp add: make_brace_map_def)
    with unmatched_open_not_close[OF that] show ?thesis by simp
  next
    case (Inr bm)
    then show ?thesis by simp
  qed
  from c o show ?thesis by (auto simp: interpret_program_def)
qed

text \<open>
  The amended C3 on \<open>+]\<close> and on \<open>+[\<close>.
\<close>

theorem unmatched_close_detected_before_run_witness:
  "unmatched_close 0 ''+]''
   \<and> make_brace_map ''+]'' = Inl IndexError
   \<and> interpret_program 0 ''+]'' [65] = Some (Inl (IndexError, [65], []))
   \<and> unmatched_open 0 ''+[''
   \<and> make_brace_map ''+['' = Inr Map.empty"
proof -
  have c: "unmatched_close 0 ''+]''" by simp
  have o: "unmatched_open 0 ''+[''" by simp
  have m: "make_brace_map ''+['' = Inr Map.empty" by (simp add: make_brace_map_def)
  from unmatched_close_detected_before_run[of "''+]''" 0 "[65]"]
    unmatched_close_detected_before_run[of "''+[''"] c o m
  show ?thesis by simp
qed

text \<open>
  C5. When the loop is at a \<open>[\<close> with the current cell 0, or at a \<open>]\<close> with the current
  cell not 0, and the brace map records \<open>partner\<close> for that position, the turn changes
  nothing but the position, which becomes \<open>partner + 1\<close>, and the loop goes on from there.
\<close>

theorem bracket_jump_resumes_after_partner:
  assumes "position st < length program"
    and "brace_map (position st) = Some partner"
    and "(program ! position st = CHR ''['' \<and> get_data (machine st) = 0)
         \<or> (program ! position st = CHR '']'' \<and> get_data (machine st) \<noteq> 0)"
  shows "step program brace_map st = Inr (st\<lparr>position := partner + 1\<rparr>)
     \<and> interpret_loop (Suc fuel) program brace_map st
        = interpret_loop fuel program brace_map (st\<lparr>position := partner + 1\<rparr>)"
proof -
  have s: "step program brace_map st = Inr (st\<lparr>position := partner + 1\<rparr>)"
    using assms(2,3) by (auto simp: step_def advance_def Let_def)
  then show ?thesis using assms(1) by simp
qed

text \<open>
  C5 on \<open>[]\<close>: from the \<open>[\<close> at 0 with the cell 0 to position 2, and from the \<open>]\<close> at 1
  with the cell 1 to position 1.
\<close>

theorem bracket_jump_resumes_after_partner_witness:
  "make_brace_map ''[]'' = Inr [0 \<mapsto> 1, 1 \<mapsto> 0]
   \<and> step ''[]'' [0 \<mapsto> 1, 1 \<mapsto> 0]
        \<lparr>machine = Array_init, position = 0, stdin = [], stdout = []\<rparr>
      = Inr \<lparr>machine = Array_init, position = 2, stdin = [], stdout = []\<rparr>
   \<and> step ''[]'' [0 \<mapsto> 1, 1 \<mapsto> 0]
        \<lparr>machine = increment Array_init, position = 1, stdin = [], stdout = []\<rparr>
      = Inr \<lparr>machine = increment Array_init, position = 1, stdin = [], stdout = []\<rparr>"
proof -
  let ?bm = "[0 \<mapsto> 1, 1 \<mapsto> (0::nat)]"
  let ?a = "\<lparr>machine = Array_init, position = 0, stdin = [], stdout = []\<rparr>"
  let ?b = "\<lparr>machine = increment Array_init, position = 1, stdin = [], stdout = []\<rparr>"
  have m: "make_brace_map ''[]'' = Inr ?bm" by (simp add: make_brace_map_def)
  have ga: "get_data (machine ?a) = 0" by (simp add: get_data_def Array_init_def)
  have gb: "get_data (machine ?b) \<noteq> 0"
    by (simp add: get_data_def Array_init_def increment_def Let_def)
  have a: "step ''[]'' ?bm ?a = Inr (?a\<lparr>position := 1 + 1\<rparr>)"
    using bracket_jump_resumes_after_partner[of ?a "''[]''" ?bm 1] ga by simp
  have b: "step ''[]'' ?bm ?b = Inr (?b\<lparr>position := 0 + 1\<rparr>)"
    using bracket_jump_resumes_after_partner[of ?b "''[]''" ?bm 0] gb by simp
  from m a b show ?thesis by simp
qed

text \<open>
  C8. Whenever \<open>make_brace_map\<close> returns a map, every key \<open>k\<close> of it has a value \<open>v\<close>
  that is a key too and is mapped back to \<open>k\<close>: \<open>brace_map[brace_map[k]] == k\<close>.
\<close>

theorem brace_map_is_involution:
  assumes "make_brace_map program = Inr brace_map"
    and "k \<in> dom brace_map"
  shows "\<exists>v. brace_map k = Some v \<and> brace_map v = Some k"
proof -
  have "\<forall>k v. brace_map k = Some v \<longrightarrow> brace_map v = Some k"
    using assms(1) unfolding make_brace_map_def
    by (rule brace_scan_involution) simp_all
  with assms(2) show ?thesis by blast
qed

text \<open>
  C8 on the map of \<open>[[]]\<close>, at the key 1.
\<close>

theorem brace_map_is_involution_witness:
  "make_brace_map ''[[]]'' = Inr [0 \<mapsto> 2, 2 \<mapsto> 0, 1 \<mapsto> 3, 3 \<mapsto> 1]
   \<and> (1::nat) \<in> dom [0 \<mapsto> 2, 2 \<mapsto> 0, 1 \<mapsto> 3, 3 \<mapsto> (1::nat)]
   \<and> [0 \<mapsto> 2, 2 \<mapsto> 0, 1 \<mapsto> 3, 3 \<mapsto> (1::nat)] (1::nat) = Some 3
   \<and> [0 \<mapsto> 2, 2 \<mapsto> 0, 1 \<mapsto> 3, 3 \<mapsto> (1::nat)] (3::nat) = Some 1"
proof -
  let ?bm = "[0 \<mapsto> 2, 2 \<mapsto> 0, 1 \<mapsto> 3, 3 \<mapsto> (1::nat)]"
  have m: "make_brace_map ''[[]]'' = Inr ?bm"
    by (simp add: make_brace_map_def eval_nat_numeral)
  have d: "(1::nat) \<in> dom ?bm" by simp
  from brace_map_is_involution[OF m d] m d show ?thesis by simp
qed

end
